theory Spec2Isabelle
  imports Main "HOL-Library.Sublist"
begin

section \<open>Library functions the code calls\<close>

subsection \<open>Package strings\<close>

text \<open>
  Go strings are byte sequences; \<open>string\<close> is a list of bytes. \<^verbatim>\<open>strings.HasPrefix\<close> and
  \<^verbatim>\<open>strings.HasSuffix\<close> compare a slice of the string with the argument.
\<close>

definition HasPrefix :: "string \<Rightarrow> string \<Rightarrow> bool" where
  "HasPrefix s p = (length s \<ge> length p \<and> take (length p) s = p)"

definition HasSuffix :: "string \<Rightarrow> string \<Rightarrow> bool" where
  "HasSuffix s suf = (length s \<ge> length suf \<and> drop (length s - length suf) s = suf)"

text \<open>\<^verbatim>\<open>strings.Index\<close>: the position of the first occurrence of \<open>sep\<close>, or \<open>-1\<close>.\<close>

fun Index :: "string \<Rightarrow> string \<Rightarrow> int" where
  "Index [] sep = (if sep = [] then 0 else - 1)"
| "Index (c # cs) sep =
     (if HasPrefix (c # cs) sep then 0
      else (let m = Index cs sep in if m < 0 then - 1 else m + 1))"

text \<open>
  The loop of \<^verbatim>\<open>strings.genSplit\<close> with at most \<open>k\<close> cuts: it cuts at the first occurrence of
  \<open>sep\<close> and goes on with the rest, and stops at the first rest without an occurrence.
\<close>

primrec splitLoop :: "nat \<Rightarrow> string \<Rightarrow> string \<Rightarrow> string list" where
  "splitLoop 0 s sep = [s]"
| "splitLoop (Suc k) s sep =
     (let m = Index s sep in
      if m < 0 then [s]
      else take (nat m) s # splitLoop k (drop (nat m + length sep) s) sep)"

text \<open>\<^verbatim>\<open>strings.explode\<close>, for an empty separator (one byte per character).\<close>

definition explode :: "string \<Rightarrow> int \<Rightarrow> string list" where
  "explode s n =
     (let l = int (length s);
          n' = (if n < 0 \<or> n > l then l else n)
      in if n' = 0 then []
         else map (\<lambda>c. [c]) (take (nat n' - 1) s) @ [drop (nat n' - 1) s])"

text \<open>
  \<^verbatim>\<open>strings.SplitN\<close>: at most \<open>n\<close> pieces; all of them when \<open>n\<close> is negative (no more than
  \<open>length s\<close> cuts are possible with a non-empty separator).
\<close>

definition SplitN :: "string \<Rightarrow> string \<Rightarrow> int \<Rightarrow> string list" where
  "SplitN s sep n =
     (if n = 0 then []
      else if sep = [] then explode s n
      else if n < 0 then splitLoop (length s) s sep
      else splitLoop (nat (min n (int (length s) + 1)) - 1) s sep)"

definition Split :: "string \<Rightarrow> string \<Rightarrow> string list" where
  "Split s sep = SplitN s sep (- 1)"

text \<open>\<^verbatim>\<open>strings.TrimSpace\<close>, for the white space of ASCII.\<close>

definition isSpace :: "char \<Rightarrow> bool" where
  "isSpace c = (c \<in> {CHR 0x09, CHR 0x0A, CHR 0x0B, CHR 0x0C, CHR 0x0D, CHR '' ''})"

definition TrimSpace :: "string \<Rightarrow> string" where
  "TrimSpace s = rev (dropWhile isSpace (rev (dropWhile isSpace s)))"

subsection \<open>Package os and the repository's util\<close>

text \<open>\<^verbatim>\<open>os.PathSeparator\<close> on a Unix build.\<close>

definition PathSeparator :: char where
  "PathSeparator = CHR ''/''"

text \<open>
  Modelled from the spec: \<^verbatim>\<open>util.FilterEmptyStrings\<close> (package \<^verbatim>\<open>util\<close> is not among the
  source files) discards the empty segments and keeps the others in order.
\<close>

definition FilterEmptyStrings :: "string list \<Rightarrow> string list" where
  "FilterEmptyStrings ss = filter (\<lambda>s. s \<noteq> []) ss"

section \<open>Rule-set composition (package config)\<close>

subsection \<open>The Rule collaborator\<close>

text \<open>
  Modelled from the spec: package \<^verbatim>\<open>rule\<close> (the type \<^verbatim>\<open>rule.Rule\<close>, its methods
  \<^verbatim>\<open>ContainsCategory\<close>, \<^verbatim>\<open>SetRegexp\<close>, \<^verbatim>\<open>SetIncludeNote\<close>) is not among the source files.
  The spec describes a rule as identified by its name, carrying a set of category tags,
  and finalised by compiling its matching expression and applying the note-inclusion
  flag. A list entry of type \<open>Rule\<close> stands for the object a (non-nil) \<^verbatim>\<open>*rule.Rule\<close>
  points to; the entries of \<^verbatim>\<open>c.Rules\<close> are distinct objects, so a method call on the
  loop variable \<^verbatim>\<open>r\<close> is an update of that entry.
\<close>

record Rule =
  Name :: string
  Categories :: "string list"
  regexpSet :: bool
  noteIncluded :: "bool option"

text \<open>
  Modelled from the spec: \<^verbatim>\<open>ContainsCategory\<close> is simple membership of the category name in
  the rule's categories (``by simple membership, not prefix or pattern matching'').
\<close>

definition ContainsCategory :: "Rule \<Rightarrow> string \<Rightarrow> bool" where
  "ContainsCategory r ex = (ex \<in> set (Categories r))"

text \<open>Modelled from the spec: \<^verbatim>\<open>SetRegexp\<close> compiles the rule's matching expression.\<close>

definition SetRegexp :: "Rule \<Rightarrow> Rule" where
  "SetRegexp r = r\<lparr>regexpSet := True\<rparr>"

text \<open>Modelled from the spec: \<^verbatim>\<open>SetIncludeNote\<close> applies the note-inclusion flag.\<close>

definition SetIncludeNote :: "bool \<Rightarrow> Rule \<Rightarrow> Rule" where
  "SetIncludeNote b r = r\<lparr>noteIncluded := Some b\<rparr>"

subsection \<open>Config\<close>

record Config =
  Rules :: "Rule list"
  IgnoreFiles :: "string list"
  SuccessExitMessage :: "string option"
  IncludeNote :: bool
  ExcludeCategories :: "string list"

text \<open>\<^verbatim>\<open>GetSuccessExitMessage\<close>: the nil pointer is \<open>None\<close>.\<close>

definition GetSuccessExitMessage :: "Config \<Rightarrow> string" where
  "GetSuccessExitMessage c =
     (case SuccessExitMessage c of
        None \<Rightarrow> ''No findings found.''
      | Some msg \<Rightarrow> msg)"

text \<open>\<^verbatim>\<open>inExistingRules\<close>: the loop over \<^verbatim>\<open>c.Rules\<close>, returning at the first equal name.\<close>

fun inRules :: "Rule list \<Rightarrow> Rule \<Rightarrow> bool" where
  "inRules [] r = False"
| "inRules (n # ns) r = (if Name n = Name r then True else inRules ns r)"

definition inExistingRules :: "Config \<Rightarrow> Rule \<Rightarrow> bool" where
  "inExistingRules c r = inRules (Rules c) r"

text \<open>
  The first loop of \<^verbatim>\<open>ConfigureRules\<close> (the merge step), over the default rules in order.
  The table \<^verbatim>\<open>rule.DefaultRules\<close> is not among the source files; it is the parameter
  \<open>defaults\<close>. The test \<^verbatim>\<open>inExistingRules\<close> reads the list as it has grown so far.
\<close>

fun appendDefaults :: "Rule list \<Rightarrow> Config \<Rightarrow> Config" where
  "appendDefaults [] c = c"
| "appendDefaults (r # rs) c =
     appendDefaults rs
       (if \<not> inExistingRules c r then c\<lparr>Rules := Rules c @ [r]\<rparr> else c)"

text \<open>The inner loop of \<^verbatim>\<open>RuleLoop\<close> over \<^verbatim>\<open>c.ExcludeCategories\<close>.\<close>

fun excludedBy :: "string list \<Rightarrow> Rule \<Rightarrow> bool" where
  "excludedBy [] r = False"
| "excludedBy (ex # exs) r = (if ContainsCategory r ex then True else excludedBy exs r)"

text \<open>
  \<^verbatim>\<open>RuleLoop\<close>: for the rule at index \<open>i\<close>, either the index is recorded in
  \<^verbatim>\<open>excludedIndices\<close> (and the rule is left as it is), or the rule is finalised in place.
  The result is the rule list after the loop and the recorded indices, ascending.
\<close>

fun RuleLoop :: "Config \<Rightarrow> int \<Rightarrow> Rule list \<Rightarrow> Rule list \<times> int list" where
  "RuleLoop c i [] = ([], [])"
| "RuleLoop c i (r # rs) =
     (let (rs', excludedIndices) = RuleLoop c (i + 1) rs in
      if excludedBy (ExcludeCategories c) r then (r # rs', i # excludedIndices)
      else (SetIncludeNote (IncludeNote c) (SetRegexp r) # rs', excludedIndices))"

text \<open>\<^verbatim>\<open>RemoveRule\<close>: out of range the list is unchanged, otherwise entry \<open>i\<close> is cut out.\<close>

definition RemoveRule :: "Config \<Rightarrow> int \<Rightarrow> Config" where
  "RemoveRule c i =
     (if i \<ge> int (length (Rules c)) \<or> i < 0 then c
      else c\<lparr>Rules := take (nat i) (Rules c) @ drop (nat i + 1) (Rules c)\<rparr>)"

text \<open>
  The last loop of \<^verbatim>\<open>ConfigureRules\<close>. Each round first evaluates \<^verbatim>\<open>c.Rules[exIdx]\<close> for the
  log call (Go evaluates the arguments whatever the log level), which panics when the
  index is outside the current list; then it calls \<^verbatim>\<open>RemoveRule\<close>.
\<close>

datatype panic = IndexOutOfRange int nat

fun removeExcluded :: "int list \<Rightarrow> Config \<Rightarrow> panic + Config" where
  "removeExcluded [] c = Inr c"
| "removeExcluded (exIdx # rest) c =
     (if exIdx < 0 \<or> exIdx \<ge> int (length (Rules c))
      then Inl (IndexOutOfRange exIdx (length (Rules c)))
      else removeExcluded rest (RemoveRule c exIdx))"

definition ConfigureRules :: "Rule list \<Rightarrow> Config \<Rightarrow> panic + Config" where
  "ConfigureRules defaults c =
     (let c1 = appendDefaults defaults c;
          (rs, excludedIndices) = RuleLoop c1 0 (Rules c1)
      in removeExcluded excludedIndices (c1\<lparr>Rules := rs\<rparr>))"

section \<open>Ignore matching (package ignore)\<close>

subsection \<open>The domain of the working directory\<close>

text \<open>
  \<^verbatim>\<open>getDomainFromWorkingDir\<close>. Its first statement appends the separator to \<^verbatim>\<open>gitRoot\<close>
  when it is missing (\<open>withPathSeparator\<close>); then the working directory is cut at the
  first occurrence of that string, \<^verbatim>\<open>strings.SplitN(workingDir, gitRoot, 2)\<close>.
\<close>

definition withPathSeparator :: "string \<Rightarrow> string" where
  "withPathSeparator gitRoot =
     (if \<not> HasSuffix gitRoot [PathSeparator] then gitRoot @ [PathSeparator] else gitRoot)"

definition getDomainFromWorkingDir :: "string \<Rightarrow> string \<Rightarrow> string list" where
  "getDomainFromWorkingDir workingDir gitRoot =
     (let res = SplitN workingDir (withPathSeparator gitRoot) 2 in
      if length res > 1 then FilterEmptyStrings (Split (res ! 1) [PathSeparator])
      else [])"

subsection \<open>Collecting the ignore files\<close>

text \<open>
  The errors of the filesystem calls. \<^verbatim>\<open>errors.Is(err, os.ErrNotExist)\<close> holds of
  \<open>ErrNotExist\<close> only.
\<close>

datatype error = ErrNotExist | ErrPermission | ErrOther string

text \<open>The two methods of \<^verbatim>\<open>os.FileInfo\<close> the code reads.\<close>

record FileInfo =
  fiName :: string
  IsDir :: bool

text \<open>
  The interface \<^verbatim>\<open>billy.Filesystem\<close>, by the methods the code calls. \<open>Open\<close> gives, for a
  file that opens, the lines the scanner reads from it: the code never asks the scanner
  for an error, so a read that fails in the middle of a file only ends the lines.
\<close>

record Filesystem =
  Open :: "string \<Rightarrow> error + string list"
  ReadDir :: "string \<Rightarrow> error + FileInfo list"
  Join :: "string list \<Rightarrow> string"

text \<open>
  A pattern is the result of the library call \<^verbatim>\<open>gitignore.ParsePattern(s, path)\<close>, kept as
  the call with its two arguments (the line and the domain). The domain is the value
  of the slice \<^verbatim>\<open>path\<close> at the time of the call.
\<close>

datatype Pattern = ParsePattern string "string list"

definition commentPrefix :: string where
  "commentPrefix = ''#''"

definition gitDir :: string where
  "gitDir = ''.git''"

definition defaultIgnoreFiles :: "string list" where
  "defaultIgnoreFiles = [''.gitignore'', ''.ignore'', ''.wokeignore'', ''.git/info/exclude'']"

text \<open>The scanner loop of \<^verbatim>\<open>readIgnoreFile\<close>, with the patterns collected so far.\<close>

fun scanLines :: "string list \<Rightarrow> string list \<Rightarrow> Pattern list \<Rightarrow> Pattern list" where
  "scanLines path [] ps = ps"
| "scanLines path (s # rest) ps =
     scanLines path rest
       (if \<not> HasPrefix s commentPrefix \<and> length (TrimSpace s) > 0
        then ps @ [ParsePattern s path] else ps)"

text \<open>
  \<^verbatim>\<open>readIgnoreFile\<close> returns the pair \<^verbatim>\<open>(ps, err)\<close>; \<open>None\<close> is the nil error. When the
  file does not open, a missing file gives the nil error and any other failure is
  returned.
\<close>

definition readIgnoreFile ::
  "Filesystem \<Rightarrow> string list \<Rightarrow> string \<Rightarrow> Pattern list \<times> error option" where
  "readIgnoreFile fs path ignoreFile =
     (case Open fs (Join fs (path @ [ignoreFile])) of
        Inl err \<Rightarrow> ([], if err = ErrNotExist then None else Some err)
      | Inr lines \<Rightarrow> (scanLines path lines [], None))"

text \<open>The first loop of \<^verbatim>\<open>readPatterns\<close>, over the ignore file names.\<close>

fun readFiles ::
  "Filesystem \<Rightarrow> string list \<Rightarrow> string list \<Rightarrow> Pattern list \<Rightarrow> Pattern list \<times> error option" where
  "readFiles fs path [] ps = (ps, None)"
| "readFiles fs path (filename # rest) ps =
     (case readIgnoreFile fs path filename of
        (subps, Some err) \<Rightarrow> (ps, Some err)
      | (subps, None) \<Rightarrow>
          readFiles fs path rest (if length subps > 0 then ps @ subps else ps))"

text \<open>
  The second loop of \<^verbatim>\<open>readPatterns\<close>, over the directory listing; \<open>rec\<close> is the recursive
  call.
\<close>

fun readSubdirs ::
  "(string list \<Rightarrow> (Pattern list \<times> error option) option) \<Rightarrow> string list \<Rightarrow>
   FileInfo list \<Rightarrow> Pattern list \<Rightarrow> (Pattern list \<times> error option) option" where
  "readSubdirs rec path [] ps = Some (ps, None)"
| "readSubdirs rec path (fi # fis) ps =
     (if IsDir fi \<and> fiName fi \<noteq> gitDir then
        (case rec (path @ [fiName fi]) of
           None \<Rightarrow> None
         | Some (subps, Some err) \<Rightarrow> Some (ps, Some err)
         | Some (subps, None) \<Rightarrow>
             readSubdirs rec path fis (if length subps > 0 then ps @ subps else ps))
      else readSubdirs rec path fis ps)"

text \<open>
  \<^verbatim>\<open>readPatterns\<close>. The interface does not bound the depth of the tree, so the recursion
  carries a bound on the nesting depth and is \<open>None\<close> when the bound is reached.
\<close>

primrec readPatterns ::
  "nat \<Rightarrow> Filesystem \<Rightarrow> string list \<Rightarrow> (Pattern list \<times> error option) option" where
  "readPatterns 0 fs path = None"
| "readPatterns (Suc depth) fs path =
     (case readFiles fs path defaultIgnoreFiles [] of
        (ps, Some err) \<Rightarrow> Some (ps, Some err)
      | (ps, None) \<Rightarrow>
          (case ReadDir fs (Join fs path) of
             Inl err \<Rightarrow> Some (ps, Some err)
           | Inr fis \<Rightarrow> readSubdirs (readPatterns depth fs) path fis ps))"

subsection \<open>Locating the root\<close>

text \<open>The injected functions of \<^verbatim>\<open>IgnoreFactory\<close>.\<close>

record IgnoreFactory =
  filepathAbs :: "string \<Rightarrow> error + string"
  osGetwd :: "error + string"

text \<open>
  What \<^verbatim>\<open>GetRootGitDir\<close> calls of the operating system and of the libraries:
  \<^verbatim>\<open>os.Stat\<close> (with \<open>None\<close> for a nil error), \<^verbatim>\<open>filepath.Join\<close>, \<^verbatim>\<open>filepath.Dir\<close> and
  \<^verbatim>\<open>osfs.New\<close>.
\<close>

record OS =
  Stat :: "string \<Rightarrow> error option"
  filepathJoin :: "string \<Rightarrow> string \<Rightarrow> string"
  filepathDir :: "string \<Rightarrow> string"
  osfsNew :: "string \<Rightarrow> Filesystem"

text \<open>
  The loop of \<^verbatim>\<open>GetRootGitDir\<close>; \<open>None\<close> is a loop that never returns.
\<close>

partial_function (option) findGitDir :: "OS \<Rightarrow> string \<Rightarrow> string \<Rightarrow> Filesystem option" where
  "findGitDir os workingDir dir =
     (if Stat os (filepathJoin os dir ''.git'') = None then Some (osfsNew os dir)
      else if filepathDir os dir = dir then Some (osfsNew os workingDir)
      else findGitDir os workingDir (filepathDir os dir))"

definition GetRootGitDir ::
  "IgnoreFactory \<Rightarrow> OS \<Rightarrow> string \<Rightarrow> (error + Filesystem) option" where
  "GetRootGitDir iFactory os workingDir =
     (case filepathAbs iFactory workingDir of
        Inl err \<Rightarrow> Some (Inl err)
      | Inr dir \<Rightarrow> map_option Inr (findGitDir os workingDir dir))"

subsection \<open>Matching\<close>

text \<open>
  \<^verbatim>\<open>Ignore\<close> holds a \<^verbatim>\<open>gitignore.Matcher\<close>, an interface with the one method \<^verbatim>\<open>Match\<close>.
  The matcher is the library's: what it answers for given patterns is not part of this
  development, which covers what \<^verbatim>\<open>Ignore.Match\<close> hands to it.
\<close>

record Ignore =
  matcher :: "string list \<Rightarrow> bool \<Rightarrow> bool"

definition Match :: "Ignore \<Rightarrow> string \<Rightarrow> bool \<Rightarrow> bool" where
  "Match i f isDir = matcher i (FilterEmptyStrings (Split f [PathSeparator])) isDir"

subsection \<open>An auxiliary function\<close>

text \<open>
  Splitting at one character, by structural recursion: what \<open>Split s [c]\<close> computes
  (lemma \<open>Split_single\<close>); used in the proofs only.
\<close>

fun splitChar :: "char \<Rightarrow> string \<Rightarrow> string list" where
  "splitChar c [] = [[]]"
| "splitChar c (x # xs) =
     (if x = c then [] # splitChar c xs
      else (case splitChar c xs of [] \<Rightarrow> [[x]] | y # ys \<Rightarrow> (x # y) # ys))"

subsection \<open>Notions used in the statements\<close>

text \<open>
  The names of the sub-directories \<^verbatim>\<open>readPatterns\<close> recurses into, in listing order: the
  entries that are directories and are not named \<^verbatim>\<open>.git\<close>.
\<close>

definition subdirNames :: "FileInfo list \<Rightarrow> string list" where
  "subdirNames fis = map fiName (filter (\<lambda>fi. IsDir fi \<and> fiName fi \<noteq> gitDir) fis)"

text \<open>
  \<open>descends fs path q\<close>: the names \<open>q\<close> lead from the directory \<open>path\<close> down through
  sub-directories that the recursion enters.
\<close>

fun descends :: "Filesystem \<Rightarrow> string list \<Rightarrow> string list \<Rightarrow> bool" where
  "descends fs path [] = True"
| "descends fs path (name # q) =
     ((case ReadDir fs (Join fs path) of
         Inl err \<Rightarrow> False
       | Inr fis \<Rightarrow> name \<in> set (subdirNames fis)) \<and>
      descends fs (path @ [name]) q)"

text \<open>
  The patterns of the ignore files of one directory, in the order of
  \<^verbatim>\<open>defaultIgnoreFiles\<close> and, within a file, in line order.
\<close>

definition dirPatterns :: "Filesystem \<Rightarrow> string list \<Rightarrow> Pattern list" where
  "dirPatterns fs path = concat (map (\<lambda>f. fst (readIgnoreFile fs path f)) defaultIgnoreFiles)"

section \<open>Properties of the rule-set composition\<close>

lemma inRules_iff: "inRules rs r \<longleftrightarrow> Name r \<in> Name ` set rs"
  by (induction rs) auto

lemma appendDefaults_frame: "appendDefaults ds c = c\<lparr>Rules := Rules (appendDefaults ds c)\<rparr>"
proof (induction ds arbitrary: c)
  case Nil
  show ?case by simp
next
  case (Cons d ds)
  show ?case
  proof (cases "inExistingRules c d")
    case True
    then show ?thesis using Cons.IH [of c] by simp
  next
    case False
    have "appendDefaults ds (c\<lparr>Rules := Rules c @ [d]\<rparr>) =
          (c\<lparr>Rules := Rules c @ [d]\<rparr>)\<lparr>Rules := Rules (appendDefaults ds (c\<lparr>Rules := Rules c @ [d]\<rparr>))\<rparr>"
      by (rule Cons.IH)
    with False show ?thesis by simp
  qed
qed


lemma appendDefaults_distinct:
  "distinct (map Name (Rules c)) \<Longrightarrow> distinct (map Name (Rules (appendDefaults ds c)))"
  by (induction ds arbitrary: c) (auto simp: inExistingRules_def inRules_iff)


lemma excludedBy_iff: "excludedBy exs r \<longleftrightarrow> set exs \<inter> set (Categories r) \<noteq> {}"
  by (induction exs) (auto simp: ContainsCategory_def)

lemma RuleLoop_none_excluded:
  "\<forall>r\<in>set rs. \<not> excludedBy (ExcludeCategories c) r \<Longrightarrow>
   RuleLoop c i rs = (map (\<lambda>r. SetIncludeNote (IncludeNote c) (SetRegexp r)) rs, [])"
  by (induction rs arbitrary: i) auto

lemma RuleLoop_one_excluded:
  "length (filter (excludedBy (ExcludeCategories c)) rs) = 1 \<Longrightarrow>
   \<exists>k rs'. RuleLoop c i rs = (rs', [i + int k]) \<and> k < length rs' \<and>
     take k rs' @ drop (Suc k) rs' =
       map (\<lambda>r. SetIncludeNote (IncludeNote c) (SetRegexp r))
         (filter (\<lambda>r. \<not> excludedBy (ExcludeCategories c) r) rs)"
proof (induction rs arbitrary: i)
  case Nil
  then show ?case by simp
next
  case (Cons r rs)
  show ?case
  proof (cases "excludedBy (ExcludeCategories c) r")
    case True
    with Cons.prems have none: "\<forall>x\<in>set rs. \<not> excludedBy (ExcludeCategories c) x"
      by (auto simp: filter_empty_conv)
    then have keep: "filter (\<lambda>r. \<not> excludedBy (ExcludeCategories c) r) rs = rs"
      by (simp add: filter_id_conv)
    show ?thesis
      using True RuleLoop_none_excluded [OF none, of "i + 1"] keep
      by (intro exI [of _ 0]) simp
  next
    case False
    with Cons.prems have "length (filter (excludedBy (ExcludeCategories c)) rs) = 1"
      by simp
    from Cons.IH [OF this, of "i + 1"] obtain k rs' where
      loop: "RuleLoop c (i + 1) rs = (rs', [i + 1 + int k])" and k: "k < length rs'" and
      cut: "take k rs' @ drop (Suc k) rs' =
        map (\<lambda>r. SetIncludeNote (IncludeNote c) (SetRegexp r))
          (filter (\<lambda>r. \<not> excludedBy (ExcludeCategories c) r) rs)"
      by blast
    show ?thesis
      using False loop k cut by (intro exI [of _ "Suc k"]) simp
  qed
qed

lemma ConfigureRules_at_most_one_excluded:
  assumes "length (filter (excludedBy (ExcludeCategories c)) (Rules (appendDefaults defaults c))) \<le> 1"
  shows "ConfigureRules defaults c =
    Inr ((appendDefaults defaults c)
      \<lparr>Rules := map (\<lambda>r. SetIncludeNote (IncludeNote c) (SetRegexp r))
         (filter (\<lambda>r. \<not> excludedBy (ExcludeCategories c) r) (Rules (appendDefaults defaults c)))\<rparr>)"
proof -
  let ?c1 = "appendDefaults defaults c"
  have ex: "ExcludeCategories ?c1 = ExcludeCategories c" and inc: "IncludeNote ?c1 = IncludeNote c"
    by (subst appendDefaults_frame, simp)+
  consider (none) "length (filter (excludedBy (ExcludeCategories c)) (Rules ?c1)) = 0"
    | (one) "length (filter (excludedBy (ExcludeCategories c)) (Rules ?c1)) = 1"
    using assms by linarith
  then show ?thesis
  proof cases
    case none
    then have all: "\<forall>r\<in>set (Rules ?c1). \<not> excludedBy (ExcludeCategories ?c1) r"
      by (simp add: filter_empty_conv ex)
    then have "filter (\<lambda>r. \<not> excludedBy (ExcludeCategories c) r) (Rules ?c1) = Rules ?c1"
      by (simp add: filter_id_conv ex)
    then show ?thesis
      using RuleLoop_none_excluded [OF all, of 0]
      by (simp add: ConfigureRules_def Let_def ex inc)
  next
    case one
    then have "length (filter (excludedBy (ExcludeCategories ?c1)) (Rules ?c1)) = 1"
      by (simp add: ex)
    from RuleLoop_one_excluded [OF this, of 0] obtain k rs' where
      loop: "RuleLoop ?c1 0 (Rules ?c1) = (rs', [int k])" and k: "k < length rs'" and
      cut: "take k rs' @ drop (Suc k) rs' =
        map (\<lambda>r. SetIncludeNote (IncludeNote ?c1) (SetRegexp r))
          (filter (\<lambda>r. \<not> excludedBy (ExcludeCategories ?c1) r) (Rules ?c1))"
      by auto
    show ?thesis
      using loop k cut by (simp add: ConfigureRules_def Let_def RemoveRule_def ex inc)
  qed
qed

subsection \<open>The success message\<close>

text \<open>
  Claim C9. \<^verbatim>\<open>GetSuccessExitMessage\<close> returns \<open>''No findings found.''\<close> when the field
  \<^verbatim>\<open>SuccessExitMessage\<close> is nil, and otherwise exactly the configured string, the empty
  string included.
\<close>

theorem GetSuccessExitMessage_nil_or_configured:
  "GetSuccessExitMessage (c\<lparr>SuccessExitMessage := None\<rparr>) = ''No findings found.'' \<and>
   GetSuccessExitMessage (c\<lparr>SuccessExitMessage := Some msg\<rparr>) = msg \<and>
   GetSuccessExitMessage (c\<lparr>SuccessExitMessage := Some ''''\<rparr>) = ''''"
  by (simp add: GetSuccessExitMessage_def)

subsection \<open>Removing the excluded rules\<close>

text \<open>
  Claim C1 says that \<^verbatim>\<open>ConfigureRules\<close> leaves exactly the rules with no excluded category,
  in order, for every exclusion set. The indices are recorded against the list before
  any removal and are then removed one after the other from the list as it shrinks.
  With three configured rules \<open>a\<close>, \<open>b\<close>, \<open>c\<close>, of which \<open>a\<close> and \<open>b\<close> carry the
  excluded category \<open>x\<close>, the result is the list \<open>[b]\<close>: the excluded \<open>b\<close> is kept and
  \<open>c\<close>, which has no excluded category, is removed. With the two rules \<open>a\<close> and \<open>b\<close>
  alone, the second round reads \<^verbatim>\<open>c.Rules[1]\<close> of a list of length one.
  (Lemma \<open>ConfigureRules_at_most_one_excluded\<close> above: with at most one excluded rule
  the result is the filtered list.)
\<close>

theorem ConfigureRules_two_exclusions:
  "ConfigureRules []
     \<lparr>Rules =
        [\<lparr>Name = ''a'', Categories = [''x''], regexpSet = False, noteIncluded = None\<rparr>,
         \<lparr>Name = ''b'', Categories = [''x''], regexpSet = False, noteIncluded = None\<rparr>,
         \<lparr>Name = ''c'', Categories = [''y''], regexpSet = False, noteIncluded = None\<rparr>],
      IgnoreFiles = [], SuccessExitMessage = None, IncludeNote = False,
      ExcludeCategories = [''x'']\<rparr>
   = Inr
     \<lparr>Rules =
        [\<lparr>Name = ''b'', Categories = [''x''], regexpSet = False, noteIncluded = None\<rparr>],
      IgnoreFiles = [], SuccessExitMessage = None, IncludeNote = False,
      ExcludeCategories = [''x'']\<rparr>
   \<and>
   ConfigureRules []
     \<lparr>Rules =
        [\<lparr>Name = ''a'', Categories = [''x''], regexpSet = False, noteIncluded = None\<rparr>,
         \<lparr>Name = ''b'', Categories = [''x''], regexpSet = False, noteIncluded = None\<rparr>],
      IgnoreFiles = [], SuccessExitMessage = None, IncludeNote = False,
      ExcludeCategories = [''x'']\<rparr>
   = Inl (IndexOutOfRange 1 1)"
  by (simp add: ConfigureRules_def inExistingRules_def ContainsCategory_def RemoveRule_def
      SetRegexp_def SetIncludeNote_def)

subsection \<open>The merge step\<close>



text \<open>
  Claim C4 as stated, for a configured list that already holds two rules named \<open>a\<close>:
  the merge step only appends, so both stay and the names are not pairwise distinct.
\<close>

theorem appendDefaults_duplicate_names_counterexample:
  "\<not> distinct (map Name (Rules (appendDefaults []
     \<lparr>Rules =
        [\<lparr>Name = ''a'', Categories = [''x''], regexpSet = False, noteIncluded = None\<rparr>,
         \<lparr>Name = ''a'', Categories = [''y''], regexpSet = False, noteIncluded = None\<rparr>],
      IgnoreFiles = [], SuccessExitMessage = None, IncludeNote = False,
      ExcludeCategories = []\<rparr>)))"
  by simp

text \<open>
  Claim C4, amended. For every Config whose configured rules have pairwise distinct
  names, and for every default table (also one that repeats a name), the names are
  pairwise distinct after the merge step.
\<close>

theorem appendDefaults_names_distinct:
  "distinct (map Name (Rules c)) \<Longrightarrow> distinct (map Name (Rules (appendDefaults defaults c)))"
  by (rule appendDefaults_distinct)

text \<open>An instance, with a default table that repeats the name \<open>z\<close>.\<close>

theorem appendDefaults_names_distinct_witness:
  "distinct (map Name (Rules
     \<lparr>Rules = [\<lparr>Name = ''a'', Categories = [''x''], regexpSet = False, noteIncluded = None\<rparr>],
      IgnoreFiles = [], SuccessExitMessage = None, IncludeNote = False, ExcludeCategories = []\<rparr>)) \<and>
   distinct (map Name (Rules (appendDefaults
     [\<lparr>Name = ''z'', Categories = [], regexpSet = False, noteIncluded = None\<rparr>,
      \<lparr>Name = ''a'', Categories = [], regexpSet = False, noteIncluded = None\<rparr>,
      \<lparr>Name = ''z'', Categories = [''w''], regexpSet = False, noteIncluded = None\<rparr>]
     \<lparr>Rules = [\<lparr>Name = ''a'', Categories = [''x''], regexpSet = False, noteIncluded = None\<rparr>],
      IgnoreFiles = [], SuccessExitMessage = None, IncludeNote = False, ExcludeCategories = []\<rparr>)))"
proof -
  have d: "distinct (map Name (Rules
     \<lparr>Rules = [\<lparr>Name = ''a'', Categories = [''x''], regexpSet = False, noteIncluded = None\<rparr>],
      IgnoreFiles = [], SuccessExitMessage = None, IncludeNote = False, ExcludeCategories = []\<rparr>))"
    by simp
  from d appendDefaults_names_distinct [OF d] show ?thesis by blast
qed

section \<open>Properties of the string functions and of the domain\<close>

lemma HasPrefix_iff: "HasPrefix s p \<longleftrightarrow> prefix p s"
proof
  assume "HasPrefix s p"
  then have "take (length p) s = p" by (simp add: HasPrefix_def)
  then show "prefix p s" by (metis take_is_prefix)
next
  assume "prefix p s"
  then obtain r where "s = p @ r" by (auto simp: prefix_def)
  then show "HasPrefix s p" by (simp add: HasPrefix_def)
qed

lemma Index_ge: "- 1 \<le> Index s sep"
  by (induction s) (auto simp: Let_def)

lemma Index_neg_iff: "Index s sep < 0 \<longleftrightarrow> \<not> sublist sep s"
proof (induction s)
  case Nil
  show ?case by simp
next
  case (Cons c cs)
  show ?case
  proof (cases "prefix sep (c # cs)")
    case True
    then show ?thesis by (simp add: HasPrefix_iff sublist_Cons_right)
  next
    case False
    have "- 1 \<le> Index cs sep" by (rule Index_ge)
    then show ?thesis
      using False Cons.IH by (auto simp: HasPrefix_iff sublist_Cons_right Let_def)
  qed
qed

lemma Index_first:
  "\<not> sublist sep (b @ butlast sep) \<Longrightarrow> Index (b @ sep @ a) sep = int (length b)"
proof (induction b)
  case Nil
  then have "sep \<noteq> []" by auto
  then show ?case by (cases sep) (simp_all add: HasPrefix_iff)
next
  case (Cons x b)
  from Cons.prems have ne: "sep \<noteq> []" by auto
  have notpre: "\<not> prefix sep ((x # b) @ sep @ a)"
  proof
    assume "prefix sep ((x # b) @ sep @ a)"
    then have "sep = take (length sep) ((x # b) @ sep @ a)"
      by (metis append_eq_conv_conj prefix_def)
    also have "\<dots> = take (length sep) ((x # b) @ butlast sep)"
      using ne by (cases sep rule: rev_cases) auto
    finally have "prefix sep ((x # b) @ butlast sep)"
      by (metis take_is_prefix)
    with Cons.prems show False by (simp add: prefix_imp_sublist del: append.simps)
  qed
  have "\<not> sublist sep (b @ butlast sep)"
    using Cons.prems by (auto simp: sublist_Cons_right)
  from Cons.IH [OF this] notpre show ?case
    by (simp add: HasPrefix_iff Let_def)
qed

lemma SplitN_2:
  "sep \<noteq> [] \<Longrightarrow>
   SplitN s sep 2 =
     (if Index s sep < 0 then [s]
      else [take (nat (Index s sep)) s, drop (nat (Index s sep) + length sep) s])"
proof (cases s)
  case Nil
  assume "sep \<noteq> []"
  with Nil show ?thesis by (simp add: SplitN_def)
next
  case (Cons c cs)
  assume "sep \<noteq> []"
  moreover have "nat (min 2 (int (length (c # cs)) + 1)) - 1 = Suc 0" by simp
  ultimately show ?thesis
    unfolding Cons SplitN_def by (simp only: splitLoop.simps Let_def) simp
qed

lemma splitChar_nonempty: "splitChar c s \<noteq> []"
  by (induction s) (auto split: list.splits)

lemma Index_single_neg: "c \<notin> set s \<Longrightarrow> Index s [c] = - 1"
  by (induction s) (auto simp: HasPrefix_def)

lemma splitChar_notin: "c \<notin> set s \<Longrightarrow> splitChar c s = [s]"
  by (induction s) auto

lemma splitLoop_single:
  "length s \<le> k \<Longrightarrow> splitLoop k s [c] = splitChar c s"
proof (induction s arbitrary: k)
  case Nil
  show ?case by (cases k) simp_all
next
  case (Cons x xs)
  then obtain k' where k: "k = Suc k'" and k': "length xs \<le> k'"
    by (cases k) auto
  show ?case
  proof (cases "x = c")
    case True
    then show ?thesis using Cons.IH [OF k'] by (simp add: k HasPrefix_def)
  next
    case False
    have IH: "splitLoop k xs [c] = splitChar c xs"
      using Cons.IH [of k] k k' by simp
    show ?thesis
    proof (cases "Index xs [c] < 0")
      case True
      then have "splitChar c xs = [xs]" using IH by (simp add: k)
      with True False show ?thesis by (simp add: k HasPrefix_def)
    next
      case nonneg: False
      then have "splitChar c xs =
          take (nat (Index xs [c])) xs # splitLoop k' (drop (nat (Index xs [c]) + 1) xs) [c]"
        using IH by (simp add: k Let_def)
      with nonneg False show ?thesis
        by (simp add: k HasPrefix_def Let_def nat_add_distrib)
    qed
  qed
qed

lemma Split_single: "Split s [c] = splitChar c s"
  by (simp add: Split_def SplitN_def splitLoop_single)

lemma splitChar_append_sep:
  "splitChar c (f @ c # g) = splitChar c f @ splitChar c g"
proof (induction f)
  case Nil
  show ?case by simp
next
  case (Cons x f)
  then show ?case
    using splitChar_nonempty [of c f] by (cases "splitChar c f") auto
qed

lemma segments_append_sep:
  "FilterEmptyStrings (Split (f @ c # g) [c]) =
   FilterEmptyStrings (Split f [c]) @ FilterEmptyStrings (Split g [c])"
  by (simp add: Split_single splitChar_append_sep FilterEmptyStrings_def)

lemma segments_Nil: "FilterEmptyStrings (Split [] [c]) = []"
  by (simp add: Split_single FilterEmptyStrings_def)

lemma withPathSeparator_nonempty: "withPathSeparator g \<noteq> []"
  by (auto simp: withPathSeparator_def HasSuffix_def)

lemma getDomain_absent:
  "\<not> sublist (withPathSeparator g) w \<Longrightarrow> getDomainFromWorkingDir w g = []"
  using Index_neg_iff [of w "withPathSeparator g"]
  by (simp add: getDomainFromWorkingDir_def SplitN_2 withPathSeparator_nonempty)

lemma getDomain_first:
  assumes "w = b @ withPathSeparator g @ a"
    and "\<not> sublist (withPathSeparator g) (b @ butlast (withPathSeparator g))"
  shows "getDomainFromWorkingDir w g = FilterEmptyStrings (Split a [PathSeparator])"
proof -
  have "Index w (withPathSeparator g) = int (length b)"
    unfolding assms(1) by (rule Index_first [OF assms(2)])
  then show ?thesis
    by (simp add: getDomainFromWorkingDir_def SplitN_2 withPathSeparator_nonempty assms(1))
qed

lemma getDomain_prefix:
  assumes "prefix (withPathSeparator g) w"
  shows "getDomainFromWorkingDir w g =
    FilterEmptyStrings (Split (drop (length (withPathSeparator g)) w) [PathSeparator])"
proof -
  from assms obtain a where w: "w = [] @ withPathSeparator g @ a"
    by (auto simp: prefix_def)
  have "\<not> sublist (withPathSeparator g) ([] @ butlast (withPathSeparator g))"
  proof
    assume "sublist (withPathSeparator g) ([] @ butlast (withPathSeparator g))"
    then have "length (withPathSeparator g) \<le> length (butlast (withPathSeparator g))"
      by (simp only: append_Nil) (rule sublist_length_le)
    moreover have "0 < length (withPathSeparator g)"
      using withPathSeparator_nonempty [of g] by simp
    ultimately show False unfolding length_butlast by linarith
  qed
  from getDomain_first [OF w this] w show ?thesis by simp
qed

lemma getDomain_same: "getDomainFromWorkingDir w w = []"
proof (cases "HasSuffix w [PathSeparator]")
  case True
  then have r: "withPathSeparator w = w" by (simp add: withPathSeparator_def)
  then have "prefix (withPathSeparator w) w" by simp
  from getDomain_prefix [OF this] show ?thesis by (simp add: r segments_Nil)
next
  case False
  then have "withPathSeparator w = w @ [PathSeparator]" by (simp add: withPathSeparator_def)
  then have "\<not> sublist (withPathSeparator w) w"
    using sublist_length_le [of "withPathSeparator w" w] by auto
  then show ?thesis by (rule getDomain_absent)
qed

subsection \<open>The domain\<close>

text \<open>
  Claim C2, amended. \<^verbatim>\<open>getDomainFromWorkingDir\<close> first makes \<^verbatim>\<open>gitRoot\<close> end with the path
  separator. When that string does not occur in \<^verbatim>\<open>workingDir\<close> the domain is empty. When
  it occurs, the domain is the part of \<^verbatim>\<open>workingDir\<close> after its first occurrence, split
  at the separator with the empty segments discarded; this is the part after \<^verbatim>\<open>gitRoot\<close>
  when \<^verbatim>\<open>workingDir\<close> begins with it. A working directory equal to the root has the
  empty domain, \<open>/root/proj/sub/cur\<close> under \<open>/root/proj\<close> has the domain
  \<open>[sub, cur]\<close>, and no segment of a domain is empty.
\<close>

theorem getDomainFromWorkingDir_first_occurrence:
  "HasSuffix (withPathSeparator gitRoot) [PathSeparator] \<and>
   (\<not> sublist (withPathSeparator gitRoot) workingDir \<longrightarrow>
      getDomainFromWorkingDir workingDir gitRoot = []) \<and>
   (\<forall>b a. workingDir = b @ withPathSeparator gitRoot @ a \<and>
      \<not> sublist (withPathSeparator gitRoot) (b @ butlast (withPathSeparator gitRoot)) \<longrightarrow>
      getDomainFromWorkingDir workingDir gitRoot = FilterEmptyStrings (Split a [PathSeparator])) \<and>
   (prefix (withPathSeparator gitRoot) workingDir \<longrightarrow>
      getDomainFromWorkingDir workingDir gitRoot =
        FilterEmptyStrings
          (Split (drop (length (withPathSeparator gitRoot)) workingDir) [PathSeparator])) \<and>
   getDomainFromWorkingDir workingDir workingDir = [] \<and>
   getDomainFromWorkingDir ''/root/proj/sub/cur'' ''/root/proj'' = [''sub'', ''cur''] \<and>
   [] \<notin> set (getDomainFromWorkingDir workingDir gitRoot)"
proof -
  have suffix: "HasSuffix (withPathSeparator gitRoot) [PathSeparator]"
    by (simp add: withPathSeparator_def HasSuffix_def)
  have example: "getDomainFromWorkingDir ''/root/proj/sub/cur'' ''/root/proj'' = [''sub'', ''cur'']"
    by code_simp
  have nonempty: "[] \<notin> set (getDomainFromWorkingDir workingDir gitRoot)"
    by (simp add: getDomainFromWorkingDir_def FilterEmptyStrings_def Let_def)
  show ?thesis
    using suffix example nonempty getDomain_absent [of gitRoot workingDir]
      getDomain_first [of workingDir _ gitRoot] getDomain_prefix [of gitRoot workingDir]
      getDomain_same [of workingDir]
    by blast
qed

text \<open>
  Instances: a working directory in which the root does not occur, one that begins with
  it, and one in which it occurs after \<open>/x\<close>.
\<close>

theorem getDomainFromWorkingDir_first_occurrence_witness:
  "\<not> sublist (withPathSeparator ''/root/proj'') ''/srv/other'' \<and>
   getDomainFromWorkingDir ''/srv/other'' ''/root/proj'' = [] \<and>
   prefix (withPathSeparator ''/root/proj'') ''/root/proj/sub/cur'' \<and>
   getDomainFromWorkingDir ''/root/proj/sub/cur'' ''/root/proj'' =
     FilterEmptyStrings (Split (drop (length (withPathSeparator ''/root/proj'')) ''/root/proj/sub/cur'') [PathSeparator]) \<and>
   ''/x/root/proj/sub'' = ''/x'' @ withPathSeparator ''/root/proj'' @ ''sub'' \<and>
   \<not> sublist (withPathSeparator ''/root/proj'') (''/x'' @ butlast (withPathSeparator ''/root/proj'')) \<and>
   getDomainFromWorkingDir ''/x/root/proj/sub'' ''/root/proj'' =
     FilterEmptyStrings (Split ''sub'' [PathSeparator])"
proof -
  have h1: "\<not> sublist (withPathSeparator ''/root/proj'') ''/srv/other''"
    by code_simp
  have h2: "prefix (withPathSeparator ''/root/proj'') ''/root/proj/sub/cur''"
    by code_simp
  have h3: "''/x/root/proj/sub'' = ''/x'' @ withPathSeparator ''/root/proj'' @ ''sub''"
    by code_simp
  have h4: "\<not> sublist (withPathSeparator ''/root/proj'')
      (''/x'' @ butlast (withPathSeparator ''/root/proj''))"
    by code_simp
  from h1 h2 h3 h4
    getDomainFromWorkingDir_first_occurrence [of "''/root/proj''" "''/srv/other''"]
    getDomainFromWorkingDir_first_occurrence [of "''/root/proj''" "''/root/proj/sub/cur''"]
    getDomainFromWorkingDir_first_occurrence [of "''/root/proj''" "''/x/root/proj/sub''"]
  show ?thesis by blast
qed

text \<open>
  Claim C2 as stated says that the domain is empty whenever \<^verbatim>\<open>workingDir\<close> does not begin
  with \<^verbatim>\<open>gitRoot\<close>. The working directory \<open>/x/root/proj/sub\<close> does not begin with
  \<open>/root/proj\<close>, and its domain is \<open>[sub]\<close>.
\<close>

theorem getDomainFromWorkingDir_not_prefix_counterexample:
  "\<not> HasPrefix ''/x/root/proj/sub'' ''/root/proj'' \<and>
   getDomainFromWorkingDir ''/x/root/proj/sub'' ''/root/proj'' = [''sub'']"
  by code_simp

subsection \<open>Matching a path\<close>

text \<open>
  Claim C10. For every matcher and every \<^verbatim>\<open>isDir\<close>, two paths that split into the same
  non-empty segments get the same answer from \<^verbatim>\<open>Match\<close>; a leading separator, a trailing
  separator and a repeated separator do not change the answer.
\<close>

theorem Match_same_segments:
  "(FilterEmptyStrings (Split f1 [PathSeparator]) = FilterEmptyStrings (Split f2 [PathSeparator]) \<longrightarrow>
      Match i f1 isDir = Match i f2 isDir) \<and>
   Match i (PathSeparator # f) isDir = Match i f isDir \<and>
   Match i (f @ [PathSeparator]) isDir = Match i f isDir \<and>
   Match i (f @ PathSeparator # PathSeparator # g) isDir = Match i (f @ PathSeparator # g) isDir"
proof -
  have lead: "FilterEmptyStrings (Split (PathSeparator # f) [PathSeparator]) =
      FilterEmptyStrings (Split f [PathSeparator])"
    using segments_append_sep [of "[]" PathSeparator f] by (simp add: segments_Nil)
  have trail: "FilterEmptyStrings (Split (f @ [PathSeparator]) [PathSeparator]) =
      FilterEmptyStrings (Split f [PathSeparator])"
    using segments_append_sep [of f PathSeparator "[]"] by (simp add: segments_Nil)
  have twice: "FilterEmptyStrings (Split (f @ PathSeparator # PathSeparator # g) [PathSeparator]) =
      FilterEmptyStrings (Split (f @ PathSeparator # g) [PathSeparator])"
    using segments_append_sep [of f PathSeparator "PathSeparator # g"]
      segments_append_sep [of "[]" PathSeparator g] segments_append_sep [of f PathSeparator g]
    by (simp add: segments_Nil)
  show ?thesis
    by (simp add: Match_def lead trail twice)
qed

text \<open>An instance: the paths \<open>a/b\<close> and \<open>//a//b/\<close>.\<close>

theorem Match_same_segments_witness:
  "\<forall>i isDir.
     FilterEmptyStrings (Split ''a/b'' [PathSeparator]) =
       FilterEmptyStrings (Split ''//a//b/'' [PathSeparator]) \<and>
     Match i ''a/b'' isDir = Match i ''//a//b/'' isDir"
proof -
  have same: "FilterEmptyStrings (Split ''a/b'' [PathSeparator]) =
      FilterEmptyStrings (Split ''//a//b/'' [PathSeparator])"
    by code_simp
  show ?thesis
    using same Match_same_segments [of "''a/b''" "''//a//b/''"] by blast
qed

section \<open>Properties of the root search\<close>

lemma findGitDir_fallback:
  assumes "filepathDir os ((filepathDir os ^^ n) dir) = (filepathDir os ^^ n) dir"
    and "\<forall>k\<le>n. Stat os (filepathJoin os ((filepathDir os ^^ k) dir) ''.git'') \<noteq> None"
  shows "findGitDir os workingDir dir = Some (osfsNew os workingDir)"
  using assms
proof (induction n arbitrary: dir)
  case 0
  then show ?case by (subst findGitDir.simps) auto
next
  case (Suc n)
  from Suc.prems(2) have here: "Stat os (filepathJoin os dir ''.git'') \<noteq> None"
    by (metis funpow_0 le0)
  show ?case
  proof (cases "filepathDir os dir = dir")
    case True
    with here show ?thesis by (subst findGitDir.simps) auto
  next
    case False
    have "filepathDir os ((filepathDir os ^^ n) (filepathDir os dir)) =
        (filepathDir os ^^ n) (filepathDir os dir)"
      using Suc.prems(1) by (simp add: funpow_swap1)
    moreover have "\<forall>k\<le>n. Stat os (filepathJoin os ((filepathDir os ^^ k) (filepathDir os dir)) ''.git'') \<noteq> None"
    proof (intro allI impI)
      fix k assume "k \<le> n"
      then have "Suc k \<le> Suc n" by simp
      with Suc.prems(2) have "Stat os (filepathJoin os ((filepathDir os ^^ Suc k) dir) ''.git'') \<noteq> None"
        by blast
      then show "Stat os (filepathJoin os ((filepathDir os ^^ k) (filepathDir os dir)) ''.git'') \<noteq> None"
        by (simp add: funpow_swap1)
    qed
    ultimately have "findGitDir os workingDir (filepathDir os dir) = Some (osfsNew os workingDir)"
      by (rule Suc.IH)
    with here False show ?thesis by (subst findGitDir.simps) auto
  qed
qed

text \<open>
  Claim C5. \<^verbatim>\<open>GetRootGitDir\<close> returns an error exactly when \<^verbatim>\<open>filepathAbs\<close> fails, with that
  error. When the absolute form \<open>dir\<close> is computed, walking up from it reaches a
  directory that is its own parent after \<open>n\<close> steps, and \<^verbatim>\<open>os.Stat\<close> finds no \<^verbatim>\<open>.git\<close>
  entry in any directory on the way, the loop returns, with no error, the filesystem
  \<^verbatim>\<open>osfs.New(workingDir)\<close> of the original working directory.
\<close>

theorem GetRootGitDir_fallback:
  "(GetRootGitDir iFactory os workingDir = Some (Inl err) \<longleftrightarrow>
      filepathAbs iFactory workingDir = Inl err) \<and>
   (\<forall>dir n.
      filepathAbs iFactory workingDir = Inr dir \<and>
      filepathDir os ((filepathDir os ^^ n) dir) = (filepathDir os ^^ n) dir \<and>
      (\<forall>k\<le>n. Stat os (filepathJoin os ((filepathDir os ^^ k) dir) ''.git'') \<noteq> None) \<longrightarrow>
      GetRootGitDir iFactory os workingDir = Some (Inr (osfsNew os workingDir)))"
proof -
  have "GetRootGitDir iFactory os workingDir = Some (Inl err) \<longleftrightarrow>
      filepathAbs iFactory workingDir = Inl err"
    by (auto simp: GetRootGitDir_def split: sum.splits)
  moreover have "GetRootGitDir iFactory os workingDir = Some (Inr (osfsNew os workingDir))"
    if "filepathAbs iFactory workingDir = Inr dir"
      and "filepathDir os ((filepathDir os ^^ n) dir) = (filepathDir os ^^ n) dir"
      and "\<forall>k\<le>n. Stat os (filepathJoin os ((filepathDir os ^^ k) dir) ''.git'') \<noteq> None"
    for dir n
    using that(1) findGitDir_fallback [OF that(2,3), of workingDir]
    by (simp add: GetRootGitDir_def)
  ultimately show ?thesis by blast
qed

text \<open>
  An instance: the working directory \<open>u\<close> with the absolute form \<open>/home/u\<close>, and no
  \<^verbatim>\<open>.git\<close> entry in \<open>/home/u\<close>, \<open>/home\<close> and \<open>/\<close>.
\<close>

theorem GetRootGitDir_fallback_witness:
  "filepathAbs \<lparr>filepathAbs = (\<lambda>p. Inr (''/home/'' @ p)), osGetwd = Inr ''/home/u''\<rparr> ''u'' = Inr ''/home/u'' \<and>
   GetRootGitDir
     \<lparr>filepathAbs = (\<lambda>p. Inr (''/home/'' @ p)), osGetwd = Inr ''/home/u''\<rparr>
     \<lparr>Stat = (\<lambda>p. Some ErrNotExist),
      filepathJoin = (\<lambda>d f. d @ ''/'' @ f),
      filepathDir = (\<lambda>d. if d = ''/home/u'' then ''/home'' else ''/''),
      osfsNew = (\<lambda>d. \<lparr>Open = (\<lambda>p. Inl ErrNotExist), ReadDir = (\<lambda>p. Inr []), Join = (\<lambda>ps. d)\<rparr>)\<rparr>
     ''u''
   = Some (Inr \<lparr>Open = (\<lambda>p. Inl ErrNotExist), ReadDir = (\<lambda>p. Inr []), Join = (\<lambda>ps. ''u'')\<rparr>)"
proof -
  let ?F = "\<lparr>filepathAbs = (\<lambda>p. Inr (''/home/'' @ p)), osGetwd = Inr ''/home/u''\<rparr>"
  let ?os = "\<lparr>Stat = (\<lambda>p. Some ErrNotExist),
      filepathJoin = (\<lambda>d f. d @ ''/'' @ f),
      filepathDir = (\<lambda>d. if d = ''/home/u'' then ''/home'' else ''/''),
      osfsNew = (\<lambda>d. \<lparr>Open = (\<lambda>p. Inl ErrNotExist), ReadDir = (\<lambda>p. Inr []), Join = (\<lambda>ps. d)\<rparr>)\<rparr>"
  have abs: "filepathAbs ?F ''u'' = Inr ''/home/u''" by simp
  have root: "filepathDir ?os ((filepathDir ?os ^^ 2) ''/home/u'') = (filepathDir ?os ^^ 2) ''/home/u''"
    by (simp add: numeral_2_eq_2)
  have nogit: "\<forall>k\<le>2. Stat ?os (filepathJoin ?os ((filepathDir ?os ^^ k) ''/home/u'') ''.git'') \<noteq> None"
    by simp
  from GetRootGitDir_fallback [of ?F ?os "''u''"] abs root nogit
  have "GetRootGitDir ?F ?os ''u'' = Some (Inr (osfsNew ?os ''u''))" by blast
  with abs show ?thesis by simp
qed

section \<open>Properties of the collection of ignore files\<close>

lemma scanLines_eq:
  "scanLines path lines ps =
   ps @ map (\<lambda>s. ParsePattern s path)
     (filter (\<lambda>s. \<not> HasPrefix s commentPrefix \<and> length (TrimSpace s) > 0) lines)"
  by (induction lines arbitrary: ps) auto



lemma readIgnoreFile_opened:
  "Open fs (Join fs (path @ [f])) = Inr lines \<Longrightarrow>
   readIgnoreFile fs path f =
     (map (\<lambda>s. ParsePattern s path)
        (filter (\<lambda>s. \<not> HasPrefix s commentPrefix \<and> length (TrimSpace s) > 0) lines), None)"
  by (simp add: readIgnoreFile_def scanLines_eq)



lemma readFiles_None:
  "readFiles fs path files ps = (res, None) \<Longrightarrow>
   res = ps @ concat (map (\<lambda>f. fst (readIgnoreFile fs path f)) files)"
proof (induction files arbitrary: ps)
  case Nil
  then show ?case by simp
next
  case (Cons f files)
  obtain subps e where r: "readIgnoreFile fs path f = (subps, e)"
    by (cases "readIgnoreFile fs path f")
  show ?case
  proof (cases e)
    case None
    with Cons.prems r have
      "readFiles fs path files (if length subps > 0 then ps @ subps else ps) = (res, None)"
      by simp
    from Cons.IH [OF this] show ?thesis by (simp add: r)
  next
    case (Some err)
    with Cons.prems r show ?thesis by simp
  qed
qed




lemma readSubdirs_ok:
  "readSubdirs rec path fis ps = Some (res, None) \<Longrightarrow>
   \<exists>subs. list_all2 (\<lambda>name sub. rec (path @ [name]) = Some (sub, None)) (subdirNames fis) subs \<and>
     res = ps @ concat subs"
proof (induction fis arbitrary: ps)
  case Nil
  then show ?case by (simp add: subdirNames_def)
next
  case (Cons fi fis)
  show ?case
  proof (cases "IsDir fi \<and> fiName fi \<noteq> gitDir")
    case False
    with Cons.prems have "readSubdirs rec path fis ps = Some (res, None)" by auto
    from Cons.IH [OF this] False show ?thesis by (auto simp: subdirNames_def)
  next
    case True
    from True Cons.prems obtain subps where
      sub: "rec (path @ [fiName fi]) = Some (subps, None)" and
      rest: "readSubdirs rec path fis (if length subps > 0 then ps @ subps else ps) = Some (res, None)"
      by (auto split: option.splits prod.splits)
    from Cons.IH [OF rest] obtain subs where
      all: "list_all2 (\<lambda>name sub. rec (path @ [name]) = Some (sub, None)) (subdirNames fis) subs" and
      res: "res = (if length subps > 0 then ps @ subps else ps) @ concat subs"
      by blast
    have "list_all2 (\<lambda>name sub. rec (path @ [name]) = Some (sub, None))
        (subdirNames (fi # fis)) (subps # subs)"
      using True sub all by (simp add: subdirNames_def)
    moreover have "res = ps @ concat (subps # subs)"
      using res by (cases subps) simp_all
    ultimately show ?thesis by blast
  qed
qed

lemma readPatterns_level:
  assumes "readPatterns n fs path = Some (ps, None)"
  shows "\<exists>fis subs. ReadDir fs (Join fs path) = Inr fis \<and>
     list_all2 (\<lambda>name sub. readPatterns (n - 1) fs (path @ [name]) = Some (sub, None))
       (subdirNames fis) subs \<and>
     ps = dirPatterns fs path @ concat subs"
proof (cases n)
  case 0
  with assms show ?thesis by simp
next
  case (Suc d)
  obtain own e where files: "readFiles fs path defaultIgnoreFiles [] = (own, e)"
    by (cases "readFiles fs path defaultIgnoreFiles []")
  with assms Suc have e: "e = None" by (cases e) auto
  from readFiles_None [OF files [unfolded e]] have own: "own = dirPatterns fs path"
    by (simp add: dirPatterns_def)
  from assms Suc files e obtain fis where
    dir: "ReadDir fs (Join fs path) = Inr fis" and
    subs: "readSubdirs (readPatterns d fs) path fis own = Some (ps, None)"
    by (auto split: sum.splits)
  from readSubdirs_ok [OF subs] dir own Suc show ?thesis by auto
qed

lemma descends_append:
  "descends fs path (q1 @ q2) \<longleftrightarrow> descends fs path q1 \<and> descends fs (path @ q1) q2"
  by (induction q1 arbitrary: path) auto

lemma concat_block:
  "i < length subs \<Longrightarrow> concat subs = concat (take i subs) @ subs ! i @ concat (drop (Suc i) subs)"
  by (metis append_take_drop_id concat.simps(2) concat_append Cons_nth_drop_Suc)

lemma readPatterns_descendant:
  "readPatterns n fs path = Some (ps, None) \<Longrightarrow> descends fs path q \<Longrightarrow>
   \<exists>pre dps post. readPatterns (n - length q) fs (path @ q) = Some (dps, None) \<and>
     ps = pre @ dps @ post \<and> (q \<noteq> [] \<longrightarrow> prefix (dirPatterns fs path) pre)"
proof (induction q arbitrary: n path ps)
  case Nil
  then have "readPatterns (n - length []) fs (path @ []) = Some (ps, None) \<and> ps = [] @ ps @ []"
    by simp
  then show ?case by blast
next
  case (Cons name q)
  from readPatterns_level [OF Cons.prems(1)] obtain fis subs where
    dir: "ReadDir fs (Join fs path) = Inr fis" and
    all: "list_all2 (\<lambda>name sub. readPatterns (n - 1) fs (path @ [name]) = Some (sub, None))
       (subdirNames fis) subs" and
    ps: "ps = dirPatterns fs path @ concat subs"
    by blast
  from Cons.prems(2) dir have "name \<in> set (subdirNames fis)" and
    below: "descends fs (path @ [name]) q" by simp_all
  then obtain i where i: "i < length (subdirNames fis)" and name: "subdirNames fis ! i = name"
    by (auto simp: in_set_conv_nth)
  from all i name have sub: "readPatterns (n - 1) fs (path @ [name]) = Some (subs ! i, None)"
    and len: "i < length subs"
    by (auto simp: list_all2_conv_all_nth)
  from Cons.IH [OF sub below] obtain pre dps post where
    deep: "readPatterns (n - 1 - length q) fs ((path @ [name]) @ q) = Some (dps, None)" and
    block: "subs ! i = pre @ dps @ post"
    by blast
  have "ps = (dirPatterns fs path @ concat (take i subs) @ pre) @ dps @
      (post @ concat (drop (Suc i) subs))"
    using ps concat_block [OF len] block by simp
  moreover have "prefix (dirPatterns fs path) (dirPatterns fs path @ concat (take i subs) @ pre)"
    by simp
  moreover have "readPatterns (n - length (name # q)) fs (path @ name # q) = Some (dps, None)"
    using deep by simp
  ultimately show ?case by blast
qed

lemma readPatterns_ancestor_first:
  assumes "readPatterns n fs path = Some (ps, None)"
    and "descends fs path (q1 @ q2)" and "q2 \<noteq> []"
  shows "\<exists>pre mid post.
    ps = pre @ dirPatterns fs (path @ q1) @ mid @ dirPatterns fs (path @ q1 @ q2) @ post"
proof -
  from assms(2) have d1: "descends fs path q1" and d2: "descends fs (path @ q1) q2"
    by (simp_all add: descends_append)
  from readPatterns_descendant [OF assms(1) d1] obtain pre aps post where
    a: "readPatterns (n - length q1) fs (path @ q1) = Some (aps, None)" and
    ps: "ps = pre @ aps @ post"
    by blast
  from readPatterns_descendant [OF a d2] assms(3) obtain pre' dps post' where
    d: "readPatterns (n - length q1 - length q2) fs ((path @ q1) @ q2) = Some (dps, None)" and
    aps: "aps = pre' @ dps @ post'" and "prefix (dirPatterns fs (path @ q1)) pre'"
    by blast
  then obtain mid where pre': "pre' = dirPatterns fs (path @ q1) @ mid"
    by (auto simp: prefix_def)
  from readPatterns_level [OF d] obtain rest where
    dps: "dps = dirPatterns fs (path @ q1 @ q2) @ rest"
    by auto
  have "ps = pre @ dirPatterns fs (path @ q1) @ mid @ dirPatterns fs (path @ q1 @ q2) @
      (rest @ post' @ post)"
    by (simp add: ps aps pre' dps)
  then show ?thesis by blast
qed

lemma readSubdirs_mono:
  assumes "\<And>p r. rec p = Some r \<Longrightarrow> rec' p = Some r"
  shows "readSubdirs rec path fis ps = Some r \<Longrightarrow> readSubdirs rec' path fis ps = Some r"
proof (induction fis arbitrary: ps)
  case Nil
  then show ?case by simp
next
  case (Cons fi fis)
  show ?case
  proof (cases "IsDir fi \<and> fiName fi \<noteq> gitDir")
    case False
    with Cons show ?thesis by auto
  next
    case True
    with Cons.prems obtain sub where sub: "rec (path @ [fiName fi]) = Some sub"
      by (auto split: option.splits)
    then have sub': "rec' (path @ [fiName fi]) = Some sub" by (rule assms)
    obtain subps e where s: "sub = (subps, e)" by (cases sub)
    show ?thesis
    proof (cases e)
      case None
      with True Cons.prems sub s have
        "readSubdirs rec path fis (if length subps > 0 then ps @ subps else ps) = Some r"
        by simp
      from Cons.IH [OF this] True sub' s None show ?thesis by simp
    next
      case (Some err)
      with True Cons.prems sub sub' s show ?thesis by simp
    qed
  qed
qed

lemma readPatterns_depth_mono:
  "readPatterns n fs path = Some r \<Longrightarrow> n \<le> m \<Longrightarrow> readPatterns m fs path = Some r"
proof (induction n arbitrary: m path r)
  case 0
  then show ?case by simp
next
  case (Suc n)
  then obtain m' where m: "m = Suc m'" and le: "n \<le> m'" by (cases m) auto
  have step: "\<And>p r. readPatterns n fs p = Some r \<Longrightarrow> readPatterns m' fs p = Some r"
    using Suc.IH le by blast
  show ?case
    using Suc.prems(1) readSubdirs_mono [of "readPatterns n fs" "readPatterns m' fs", OF step]
    unfolding m by (auto split: prod.splits option.splits sum.splits)
qed

lemma readSubdirs_returns:
  "\<forall>name\<in>set (subdirNames fis). rec (path @ [name]) \<noteq> None \<Longrightarrow>
   readSubdirs rec path fis ps \<noteq> None"
proof (induction fis arbitrary: ps)
  case Nil
  show ?case by simp
next
  case (Cons fi fis)
  have rest: "\<forall>name\<in>set (subdirNames fis). rec (path @ [name]) \<noteq> None"
    using Cons.prems by (auto simp: subdirNames_def)
  show ?case
  proof (cases "IsDir fi \<and> fiName fi \<noteq> gitDir")
    case False
    with Cons.IH [OF rest] show ?thesis by auto
  next
    case True
    with Cons.prems have "rec (path @ [fiName fi]) \<noteq> None"
      by (auto simp: subdirNames_def)
    then obtain subps e where "rec (path @ [fiName fi]) = Some (subps, e)" by auto
    with True Cons.IH [OF rest] show ?thesis by (cases e) auto
  qed
qed

lemma readPatterns_returns:
  assumes "\<forall>p fis. d \<le> length p \<and> ReadDir fs (Join fs p) = Inr fis \<longrightarrow> subdirNames fis = []"
  shows "d \<le> length path + k \<Longrightarrow> readPatterns (Suc k) fs path \<noteq> None"
proof (induction k arbitrary: path)
  case 0
  show ?case
  proof (cases "ReadDir fs (Join fs path)")
    case (Inl err)
    then show ?thesis by (auto split: prod.splits option.splits)
  next
    case (Inr fis)
    with assms 0 have "subdirNames fis = []" by auto
    then have "readSubdirs (readPatterns 0 fs) path fis ps \<noteq> None" for ps
      by (intro readSubdirs_returns) simp
    with Inr show ?thesis by (auto split: prod.splits option.splits)
  qed
next
  case (Suc k)
  show ?case
  proof (cases "ReadDir fs (Join fs path)")
    case (Inl err)
    then show ?thesis by (auto split: prod.splits option.splits)
  next
    case (Inr fis)
    have "readPatterns (Suc k) fs (path @ [name]) \<noteq> None" for name
      using Suc.prems by (intro Suc.IH) simp
    then have "readSubdirs (readPatterns (Suc k) fs) path fis ps \<noteq> None" for ps
      by (intro readSubdirs_returns) simp
    with Inr show ?thesis
      by (simp only: readPatterns.simps split: prod.splits option.splits) auto
  qed
qed

text \<open>
  Claim C7. When \<^verbatim>\<open>readPatterns\<close> returns the patterns \<open>ps\<close> without an error, \<open>ps\<close> is
  the patterns of the directory's own ignore files (in the order \<open>.gitignore\<close>,
  \<open>.ignore\<close>, \<open>.wokeignore\<close>, \<open>.git/info/exclude\<close>, each file in line order) followed by
  the results of the recursive calls for the sub-directories, in listing order, the
  directory \<open>.git\<close> left out. Hence for every directory \<open>path @ q1\<close> the recursion
  reaches and every directory \<open>path @ q1 @ q2\<close> below it, at any depth, the patterns of
  the upper directory stand in \<open>ps\<close> before the patterns of the lower one. The result
  does not change when the depth bound grows, and there is a result as soon as the bound
  exceeds the depth of the tree.
\<close>

theorem readPatterns_order:
  "(readPatterns n fs path = Some (ps, None) \<longrightarrow>
      (\<exists>fis subs. ReadDir fs (Join fs path) = Inr fis \<and>
         list_all2 (\<lambda>name sub. readPatterns (n - 1) fs (path @ [name]) = Some (sub, None))
           (subdirNames fis) subs \<and>
         ps = dirPatterns fs path @ concat subs) \<and>
      (\<forall>q1 q2. descends fs path (q1 @ q2) \<and> q2 \<noteq> [] \<longrightarrow>
         (\<exists>pre mid post.
            ps = pre @ dirPatterns fs (path @ q1) @ mid @ dirPatterns fs (path @ q1 @ q2) @ post))) \<and>
   dirPatterns fs path =
     fst (readIgnoreFile fs path ''.gitignore'') @ fst (readIgnoreFile fs path ''.ignore'') @
     fst (readIgnoreFile fs path ''.wokeignore'') @ fst (readIgnoreFile fs path ''.git/info/exclude'') \<and>
   (\<forall>f lines. Open fs (Join fs (path @ [f])) = Inr lines \<longrightarrow>
      fst (readIgnoreFile fs path f) =
        map (\<lambda>s. ParsePattern s path)
          (filter (\<lambda>s. \<not> HasPrefix s commentPrefix \<and> length (TrimSpace s) > 0) lines)) \<and>
   subdirNames (fi # fis') =
     (if IsDir fi \<and> fiName fi \<noteq> ''.git'' then fiName fi # subdirNames fis' else subdirNames fis') \<and>
   (\<forall>r m. readPatterns n fs path = Some r \<and> n \<le> m \<longrightarrow> readPatterns m fs path = Some r) \<and>
   (\<forall>d k. (\<forall>p fis. d \<le> length p \<and> ReadDir fs (Join fs p) = Inr fis \<longrightarrow> subdirNames fis = []) \<and>
      d \<le> length path + k \<longrightarrow> readPatterns (Suc k) fs path \<noteq> None)"
proof -
  have level: "\<exists>fis subs. ReadDir fs (Join fs path) = Inr fis \<and>
         list_all2 (\<lambda>name sub. readPatterns (n - 1) fs (path @ [name]) = Some (sub, None))
           (subdirNames fis) subs \<and>
         ps = dirPatterns fs path @ concat subs"
    if "readPatterns n fs path = Some (ps, None)"
    using that by (rule readPatterns_level)
  have deep: "\<exists>pre mid post.
      ps = pre @ dirPatterns fs (path @ q1) @ mid @ dirPatterns fs (path @ q1 @ q2) @ post"
    if "readPatterns n fs path = Some (ps, None)" "descends fs path (q1 @ q2)" "q2 \<noteq> []"
    for q1 q2
    using that by (rule readPatterns_ancestor_first)
  have own: "dirPatterns fs path =
     fst (readIgnoreFile fs path ''.gitignore'') @ fst (readIgnoreFile fs path ''.ignore'') @
     fst (readIgnoreFile fs path ''.wokeignore'') @ fst (readIgnoreFile fs path ''.git/info/exclude'')"
    by (simp add: dirPatterns_def defaultIgnoreFiles_def)
  have lines: "fst (readIgnoreFile fs path f) =
        map (\<lambda>s. ParsePattern s path)
          (filter (\<lambda>s. \<not> HasPrefix s commentPrefix \<and> length (TrimSpace s) > 0) lines)"
    if "Open fs (Join fs (path @ [f])) = Inr lines" for f lines
    using readIgnoreFile_opened [OF that] by simp
  have names: "subdirNames (fi # fis') =
     (if IsDir fi \<and> fiName fi \<noteq> ''.git'' then fiName fi # subdirNames fis' else subdirNames fis')"
    by (simp add: subdirNames_def gitDir_def)
  have mono: "readPatterns m fs path = Some r"
    if "readPatterns n fs path = Some r" "n \<le> m" for r m
    using that by (rule readPatterns_depth_mono)
  have total: "readPatterns (Suc k) fs path \<noteq> None"
    if "\<forall>p fis. d \<le> length p \<and> ReadDir fs (Join fs p) = Inr fis \<longrightarrow> subdirNames fis = []"
      "d \<le> length path + k" for d k
    using that by (rule readPatterns_returns)
  show ?thesis
    apply (intro conjI impI allI)
    subgoal by (rule level)
    subgoal by (rule deep) auto
    subgoal by (rule own)
    subgoal by (rule lines)
    subgoal by (rule names)
    subgoal by (rule mono) auto
    subgoal by (rule total) auto
    done
qed

text \<open>
  An instance: a root with a \<open>.gitignore\<close>, a \<open>.git\<close> directory, a plain file and the
  directory \<open>docs\<close>, which has a \<open>.wokeignore\<close>.
\<close>

theorem readPatterns_order_witness:
  "readPatterns 2
     \<lparr>Open = (\<lambda>p. if p = ''/.gitignore'' then Inr [''*.log'', ''# comment'', '' '', ''!keep.log'']
                else if p = ''/docs/.wokeignore'' then Inr [''*.tmp'']
                else Inl ErrNotExist),
      ReadDir = (\<lambda>p. if p = '''' then
                    Inr [\<lparr>fiName = ''.git'', IsDir = True\<rparr>, \<lparr>fiName = ''README'', IsDir = False\<rparr>,
                         \<lparr>fiName = ''docs'', IsDir = True\<rparr>]
                  else Inr []),
      Join = (\<lambda>ps. concat (map (\<lambda>p. CHR ''/'' # p) ps))\<rparr> []
   = Some ([ParsePattern ''*.log'' [], ParsePattern ''!keep.log'' [],
            ParsePattern ''*.tmp'' [''docs'']], None) \<and>
   (\<exists>pre mid post.
      [ParsePattern ''*.log'' [], ParsePattern ''!keep.log'' [], ParsePattern ''*.tmp'' [''docs'']] =
      pre @ [ParsePattern ''*.log'' [], ParsePattern ''!keep.log'' []] @
      mid @ [ParsePattern ''*.tmp'' [''docs'']] @ post) \<and>
   readPatterns 5
     \<lparr>Open = (\<lambda>p. if p = ''/.gitignore'' then Inr [''*.log'', ''# comment'', '' '', ''!keep.log'']
                else if p = ''/docs/.wokeignore'' then Inr [''*.tmp'']
                else Inl ErrNotExist),
      ReadDir = (\<lambda>p. if p = '''' then
                    Inr [\<lparr>fiName = ''.git'', IsDir = True\<rparr>, \<lparr>fiName = ''README'', IsDir = False\<rparr>,
                         \<lparr>fiName = ''docs'', IsDir = True\<rparr>]
                  else Inr []),
      Join = (\<lambda>ps. concat (map (\<lambda>p. CHR ''/'' # p) ps))\<rparr> []
   = Some ([ParsePattern ''*.log'' [], ParsePattern ''!keep.log'' [],
            ParsePattern ''*.tmp'' [''docs'']], None)"
proof -
  define fs where "fs =
     \<lparr>Open = (\<lambda>p. if p = ''/.gitignore'' then Inr [''*.log'', ''# comment'', '' '', ''!keep.log'']
                else if p = ''/docs/.wokeignore'' then Inr [''*.tmp'']
                else Inl ErrNotExist),
      ReadDir = (\<lambda>p. if p = '''' then
                    Inr [\<lparr>fiName = ''.git'', IsDir = True\<rparr>, \<lparr>fiName = ''README'', IsDir = False\<rparr>,
                         \<lparr>fiName = ''docs'', IsDir = True\<rparr>]
                  else Inr []),
      Join = (\<lambda>ps. concat (map (\<lambda>p. CHR ''/'' # p) ps))\<rparr>"
  define ps where "ps =
     [ParsePattern ''*.log'' [], ParsePattern ''!keep.log'' [], ParsePattern ''*.tmp'' [''docs'']]"
  have run: "readPatterns 2 fs [] = Some (ps, None)"
    unfolding fs_def ps_def by code_simp
  have chain: "descends fs [] ([] @ [''docs''])"
    unfolding fs_def by code_simp
  have own: "dirPatterns fs ([] @ []) = [ParsePattern ''*.log'' [], ParsePattern ''!keep.log'' []]"
    unfolding fs_def by code_simp
  have deep: "dirPatterns fs ([] @ [] @ [''docs'']) = [ParsePattern ''*.tmp'' [''docs'']]"
    unfolding fs_def by code_simp
  have bounded: "\<forall>p fis. 1 \<le> length p \<and> ReadDir fs (Join fs p) = Inr fis \<longrightarrow> subdirNames fis = []"
  proof (intro allI impI)
    fix p fis
    assume a: "1 \<le> length p \<and> ReadDir fs (Join fs p) = Inr fis"
    then obtain x rest where p: "p = x # rest" by (cases p) auto
    have "Join fs p \<noteq> ''''" by (simp add: p fs_def)
    with a have "fis = []" by (simp add: fs_def)
    then show "subdirNames fis = []" by (simp add: subdirNames_def)
  qed
  note inst = readPatterns_order [of 2 fs "[]" ps]
  have "descends fs [] ([] @ [''docs'']) \<and> [''docs''] \<noteq> []"
    using chain by simp
  with inst run have "\<exists>pre mid post.
      ps = pre @ dirPatterns fs ([] @ []) @ mid @ dirPatterns fs ([] @ [] @ [''docs'']) @ post"
    by blast
  then have ex: "\<exists>pre mid post. ps = pre @
      [ParsePattern ''*.log'' [], ParsePattern ''!keep.log'' []] @
      mid @ [ParsePattern ''*.tmp'' [''docs'']] @ post"
    by (simp only: own deep)
  have "(2::nat) \<le> 5" by simp
  with inst run have more: "readPatterns 5 fs [] = Some (ps, None)"
    by blast
  have "1 \<le> length ([]::string list) + 1" by simp
  with inst bounded have "readPatterns (Suc 1) fs [] \<noteq> None"
    by blast
  from run ex more show ?thesis
    unfolding fs_def ps_def by blast
qed

end
